theory Spec2Isabelle
  imports Complex_Main
begin

section \<open>The paginated, price-filtered item collector of SearchPage\<close>

text \<open>
  The development embeds \<^verbatim>\<open>PriceParser.parse\<close> (src/utils/PriceParser.ts) and the
  collector \<^verbatim>\<open>collectItemsWithPaging\<close> of src/pages/SearchPage.ts with the three
  methods it calls: \<^verbatim>\<open>extractItemsFromCurrentPage\<close>, \<^verbatim>\<open>hasNextPage\<close> and
  \<^verbatim>\<open>goToNextPage\<close>.

  Conventions of the model.
  \<^item> A call into the browser-automation library either rejects or resolves with a value:
    the type \<open>'a outcome\<close>. A rejection inside a \<^verbatim>\<open>try\<close> takes the \<^verbatim>\<open>catch\<close>
    branch of the source; outside one it leaves the collector as a rejection.
  \<^item> A JavaScript number that holds a price is a value of the type \<open>number\<close>: an IEEE 754
    double, given by its exact rational value (\<open>Finite\<close>), an infinity or \<^verbatim>\<open>NaN\<close>. The
    two zeros are one value: no comparison tells them apart. \<^verbatim>\<open>parseFloat\<close> rounds the
    decimal it reads to the nearest double, ties to even.
  \<^item> \<^verbatim>\<open>limit\<close>, the page counter and the page ceiling are integer-valued numbers
    (\<open>int\<close>), negative values included.
  \<^item> Strings are \<open>string\<close>; a null is \<open>None\<close>.
\<close>

datatype 'a outcome = Throws | Returns 'a

subsection \<open>JavaScript numbers\<close>

datatype number = NaN | Finite rat | PosInfinity | NegInfinity

text \<open>The comparisons \<^verbatim>\<open>a < b\<close> and \<^verbatim>\<open>a <= b\<close>; both are false when an operand is \<^verbatim>\<open>NaN\<close>.\<close>

fun numLess :: "number \<Rightarrow> number \<Rightarrow> bool" where
  "numLess NaN _ = False"
| "numLess _ NaN = False"
| "numLess (Finite x) (Finite y) = (x < y)"
| "numLess (Finite x) PosInfinity = True"
| "numLess (Finite x) NegInfinity = False"
| "numLess PosInfinity _ = False"
| "numLess NegInfinity NegInfinity = False"
| "numLess NegInfinity _ = True"

fun numLessEq :: "number \<Rightarrow> number \<Rightarrow> bool" where
  "numLessEq NaN _ = False"
| "numLessEq _ NaN = False"
| "numLessEq (Finite x) (Finite y) = (x \<le> y)"
| "numLessEq (Finite x) PosInfinity = True"
| "numLessEq (Finite x) NegInfinity = False"
| "numLessEq PosInfinity PosInfinity = True"
| "numLessEq PosInfinity _ = False"
| "numLessEq NegInfinity _ = True"

fun isNaN :: "number \<Rightarrow> bool" where
  "isNaN NaN = True"
| "isNaN _ = False"

text \<open>
  The Number value of the quotient \<open>n / d\<close> of two naturals (\<open>d > 0\<close>): the nearest double,
  ties to even. With \<open>2 ^ k \<le> n / d < 2 ^ (k + 1)\<close>, the doubles around the quotient are
  the multiples of \<open>2 ^ e\<close> for \<open>e = k - 52\<close>, and for \<open>e = - 1074\<close> in the subnormal range;
  the quotient is rounded to a multiple \<open>m\<close> of that step, and a result of \<open>2 ^ 1024\<close> or
  more is \<^verbatim>\<open>Infinity\<close>. This is the correct rounding that the JavaScript engines in use
  perform; ECMAScript also lets an engine round a literal of more than 20 significant
  digits from its first 20 digits, which is not modelled.
\<close>

fun bitLength :: "nat \<Rightarrow> nat" where
  "bitLength n = (if n = 0 then 0 else Suc (bitLength (n div 2)))"

definition floorLog2 :: "nat \<Rightarrow> nat \<Rightarrow> int" where
  "floorLog2 n d =
     (let e0 = int (bitLength n) - int (bitLength d)
      in if (if 0 \<le> e0 then d * 2 ^ nat e0 \<le> n else d \<le> n * 2 ^ nat (- e0))
         then e0 else e0 - 1)"

definition roundHalfEven :: "nat \<Rightarrow> nat \<Rightarrow> nat" where
  "roundHalfEven n d =
     (let q = n div d; r = n mod d
      in if 2 * r < d then q
         else if d < 2 * r then q + 1
         else if even q then q else q + 1)"

definition numberValue :: "nat \<Rightarrow> nat \<Rightarrow> number" where
  "numberValue n d =
     (if n = 0 then Finite 0
      else (let e = max (- 1074) (floorLog2 n d - 52);
                m = (if 0 \<le> e then roundHalfEven n (d * 2 ^ nat e)
                     else roundHalfEven (n * 2 ^ nat (- e)) d)
            in if 0 \<le> e then
                 (if 2 ^ 1024 \<le> m * 2 ^ nat e then PosInfinity
                  else Finite (of_nat (m * 2 ^ nat e)))
               else Finite (of_nat m / of_nat (2 ^ nat (- e)))))"

subsection \<open>PriceParser.parse\<close>

definition isDigit :: "char \<Rightarrow> bool" where
  "isDigit c = (c \<in> set ''0123456789'')"

definition digitValue :: "char \<Rightarrow> nat" where
  "digitValue c = of_char c - 48"

definition digitsValue :: "string \<Rightarrow> nat" where
  "digitsValue ds = foldl (\<lambda>a c. 10 * a + digitValue c) 0 ds"

text \<open>
  \<^verbatim>\<open>parseFloat\<close> on the strings \<^verbatim>\<open>parse\<close> hands to it, which hold only the characters
  \<^verbatim>\<open>0-9\<close> and \<^verbatim>\<open>.\<close> (no sign, exponent, blank or letter is left after the
  \<^verbatim>\<open>replace\<close>). It reads the longest prefix that is a decimal literal: digits \<open>ip\<close>, then
  optionally a dot and digits \<open>fp\<close>; a prefix without any digit gives \<^verbatim>\<open>NaN\<close>. Otherwise
  the result is the Number value of the decimal \<open>ip.fp\<close>, that is of the quotient of the
  digits read as one natural by \<open>10 ^ length fp\<close>.
\<close>

definition parseFloat :: "string \<Rightarrow> number" where
  "parseFloat s =
     (let ip = takeWhile isDigit s;
          rest = dropWhile isDigit s;
          fp = (case rest of
                  [] \<Rightarrow> []
                | c # r \<Rightarrow> if c = CHR ''.'' then takeWhile isDigit r else [])
      in if ip = [] \<and> fp = [] then NaN
         else numberValue (digitsValue ip * 10 ^ length fp + digitsValue fp) (10 ^ length fp))"

text \<open>
  \<^verbatim>\<open>
  static parse(priceText: string): number {
    if (!priceText) { return 0; }
    const cleanPrice = priceText.replace(/[^0-9.]/g, '');
    const price = parseFloat(cleanPrice);
    return isNaN(price) ? 0 : price;
  }
  \<close>
\<close>

definition parse :: "string \<Rightarrow> number" where
  "parse priceText =
     (if priceText = [] then Finite 0
      else (let cleanPrice = filter (\<lambda>c. isDigit c \<or> c = CHR ''.'') priceText;
                price = parseFloat cleanPrice
            in if isNaN price then Finite 0 else price))"

subsection \<open>The browser as seen by SearchPage\<close>

text \<open>
  A result card, as \<^verbatim>\<open>extractItemsFromCurrentPage\<close> reads it: the outcome of
  \<^verbatim>\<open>item.locator(itemPriceXPath).first().textContent()\<close> and of
  \<^verbatim>\<open>item.locator(itemLinkXPath).first().getAttribute('href')\<close>.
\<close>

record card =
  priceText :: "string option outcome"
  href :: "string option outcome"

text \<open>
  The page source is any state type \<open>'w\<close> with the browser calls the three methods make.
  Reading the page (\<open>allCards\<close>: \<^verbatim>\<open>waitForTimeout(2000)\<close> followed by
  \<^verbatim>\<open>locator(itemCardXPath).all()\<close>; \<open>nextIsVisible\<close>; \<open>nextAriaDisabled\<close>) leaves the
  state as it is; \<open>clickNext\<close> and \<open>waitForPageLoad\<close> return the state they leave behind,
  whether they resolve or reject. Between two readings of the cards the collector always
  clicks, so a source whose answers change over time is covered by its clicks.
\<close>

record 'w browser =
  allCards :: "'w \<Rightarrow> card list outcome"
  nextIsVisible :: "'w \<Rightarrow> bool outcome"
  nextAriaDisabled :: "'w \<Rightarrow> string option outcome"
  clickNext :: "'w \<Rightarrow> unit outcome \<times> 'w"
  waitForPageLoad :: "'w \<Rightarrow> unit outcome \<times> 'w"

subsection \<open>extractItemsFromCurrentPage\<close>

text \<open>
  The body of the \<^verbatim>\<open>for (const item of itemElements)\<close> loop, with \<open>items\<close> the array
  built so far. Every \<^verbatim>\<open>continue\<close> and the \<^verbatim>\<open>catch\<close> go on with the next card. The
  test \<^verbatim>\<open>price > 0 && price <= maxPrice\<close> compares numbers: \<^verbatim>\<open>price > 0\<close> is \<^verbatim>\<open>0 < price\<close>.
\<close>

fun extractLoop :: "number \<Rightarrow> string list \<Rightarrow> card list \<Rightarrow> string list" where
  "extractLoop maxPrice items [] = items"
| "extractLoop maxPrice items (item # itemElements) =
     (case priceText item of
        Throws \<Rightarrow> extractLoop maxPrice items itemElements
      | Returns None \<Rightarrow> extractLoop maxPrice items itemElements
      | Returns (Some text) \<Rightarrow>
          if text = [] then extractLoop maxPrice items itemElements
          else if numLess (Finite 0) (parse text) \<and> numLessEq (parse text) maxPrice then
            (case href item of
               Throws \<Rightarrow> extractLoop maxPrice items itemElements
             | Returns None \<Rightarrow> extractLoop maxPrice items itemElements
             | Returns (Some url) \<Rightarrow>
                 if url \<noteq> [] then extractLoop maxPrice (items @ [url]) itemElements
                 else extractLoop maxPrice items itemElements)
          else extractLoop maxPrice items itemElements)"

definition extractItems :: "number \<Rightarrow> card list \<Rightarrow> string list" where
  "extractItems maxPrice itemElements = extractLoop maxPrice [] itemElements"

definition extractItemsFromCurrentPage :: "'w browser \<Rightarrow> number \<Rightarrow> 'w \<Rightarrow> string list outcome" where
  "extractItemsFromCurrentPage b maxPrice w =
     (case allCards b w of
        Throws \<Rightarrow> Throws
      | Returns itemElements \<Rightarrow> Returns (extractItems maxPrice itemElements))"

subsection \<open>hasNextPage and goToNextPage\<close>

text \<open>
  \<^verbatim>\<open>
  try {
    const isVisible = await nextButton.isVisible({ timeout: 3000 });
    const isDisabled = await nextButton.getAttribute('aria-disabled');
    return isVisible && isDisabled !== 'true';
  } catch { return false; }
  \<close>
\<close>

definition hasNextPage :: "'w browser \<Rightarrow> 'w \<Rightarrow> bool" where
  "hasNextPage b w =
     (case nextIsVisible b w of
        Throws \<Rightarrow> False
      | Returns isVisible \<Rightarrow>
          (case nextAriaDisabled b w of
             Throws \<Rightarrow> False
           | Returns isDisabled \<Rightarrow> isVisible \<and> isDisabled \<noteq> Some ''true''))"

text \<open>
  \<^verbatim>\<open>
  try { await this.nextPageButton.click(); await this.waitForPageLoad(); }
  catch (error) { console.log('Could not navigate to next page'); }
  \<close>
  The method returns nothing: its caller cannot tell a navigation from a failure.
\<close>

definition goToNextPage :: "'w browser \<Rightarrow> 'w \<Rightarrow> 'w" where
  "goToNextPage b w =
     (case clickNext b w of
        (Throws, w') \<Rightarrow> w'
      | (Returns _, w') \<Rightarrow> snd (waitForPageLoad b w'))"

subsection \<open>collectItemsWithPaging\<close>

text \<open>The value of \<^verbatim>\<open>config.pagination.maxPages\<close> (src/config/env.config.ts).\<close>

definition config_pagination_maxPages :: int where
  "config_pagination_maxPages = 10"

text \<open>
  The calls the collector makes, in the order it makes them: the log of one run.
  \<open>ExtractItems\<close> carries what \<open>allCards\<close> answered when the page was read.
\<close>

datatype event = ExtractItems "card list outcome" | HasNextPage bool | GoToNextPage

text \<open>
  \<^verbatim>\<open>
  for (const item of pageItems) {
    if (collectedUrls.length >= limit) break;
    collectedUrls.push(item);
  }
  \<close>
\<close>

fun pushItems :: "int \<Rightarrow> string list \<Rightarrow> string list \<Rightarrow> string list" where
  "pushItems limit collectedUrls [] = collectedUrls"
| "pushItems limit collectedUrls (item # pageItems) =
     (if limit \<le> int (length collectedUrls) then collectedUrls
      else pushItems limit (collectedUrls @ [item]) pageItems)"

text \<open>\<^verbatim>\<open>Array.prototype.slice(0, end)\<close>: a negative \<open>end\<close> counts from the end of the array.\<close>

definition slice0 :: "'a list \<Rightarrow> int \<Rightarrow> 'a list" where
  "slice0 xs end =
     (let len = int (length xs);
          final = (if end < 0 then max (len + end) 0 else min end len)
      in take (nat final) xs)"

text \<open>
  The \<^verbatim>\<open>while\<close> loop, from the state (\<open>collectedUrls\<close>, \<open>currentPage\<close>) with the log \<open>tr\<close>
  of the calls made so far and the browser state \<open>w\<close>. The page ceiling is the parameter
  \<open>maxPages\<close>. The result is what the loop leaves in \<open>collectedUrls\<close> (or the rejection of
  \<^verbatim>\<open>extractItemsFromCurrentPage\<close>, which nothing catches), the log and the browser state.
\<close>

function collectLoop ::
  "'w browser \<Rightarrow> number \<Rightarrow> int \<Rightarrow> int \<Rightarrow> string list \<Rightarrow> int \<Rightarrow> event list \<Rightarrow> 'w
     \<Rightarrow> string list outcome \<times> event list \<times> 'w" where
  "collectLoop b maxPrice limit maxPages collectedUrls currentPage tr w =
     (if int (length collectedUrls) < limit \<and> currentPage \<le> maxPages then
        (case extractItemsFromCurrentPage b maxPrice w of
           Throws \<Rightarrow> (Throws, tr @ [ExtractItems (allCards b w)], w)
         | Returns pageItems \<Rightarrow>
             if limit \<le> int (length (pushItems limit collectedUrls pageItems))
             then (Returns (pushItems limit collectedUrls pageItems),
                   tr @ [ExtractItems (allCards b w)], w)
             else if \<not> hasNextPage b w
             then (Returns (pushItems limit collectedUrls pageItems),
                   tr @ [ExtractItems (allCards b w), HasNextPage False], w)
             else collectLoop b maxPrice limit maxPages
                    (pushItems limit collectedUrls pageItems)
                    (currentPage + 1)
                    (tr @ [ExtractItems (allCards b w), HasNextPage True, GoToNextPage])
                    (goToNextPage b w))
      else (Returns collectedUrls, tr, w))"
  by pat_completeness auto
termination
  by (relation "measure (\<lambda>(b, maxPrice, limit, maxPages, collectedUrls, currentPage, tr, w).
                   nat (maxPages + 1 - currentPage))") auto

text \<open>
  \<^verbatim>\<open>collectItemsWithPaging(maxPrice, limit)\<close>: the loop from the empty array and page 1,
  then \<^verbatim>\<open>return collectedUrls.slice(0, limit)\<close>.
\<close>

definition collectItemsWithPaging ::
  "'w browser \<Rightarrow> number \<Rightarrow> int \<Rightarrow> int \<Rightarrow> 'w \<Rightarrow> string list outcome \<times> event list \<times> 'w" where
  "collectItemsWithPaging b maxPrice limit maxPages w =
     (case collectLoop b maxPrice limit maxPages [] 1 [] w of
        (Throws, tr, w') \<Rightarrow> (Throws, tr, w')
      | (Returns collectedUrls, tr, w') \<Rightarrow> (Returns (slice0 collectedUrls limit), tr, w'))"

subsection \<open>A concrete page source: a list of result pages\<close>

text \<open>
  One results page: its cards, the state of its next-page button, and whether a click on
  that button resolves. The browser state is the index of the page shown; beyond the last
  page the browser shows a page without cards and without a button. A click that resolves
  shows the following page; a click that rejects leaves the page shown.
\<close>

record view =
  viewCards :: "card list outcome"
  viewNextVisible :: "bool outcome"
  viewNextAriaDisabled :: "string option outcome"
  viewClickResolves :: bool

definition site :: "view list \<Rightarrow> nat browser" where
  "site vs =
     \<lparr> allCards = (\<lambda>i. if i < length vs then viewCards (vs ! i) else Returns []),
       nextIsVisible = (\<lambda>i. if i < length vs then viewNextVisible (vs ! i) else Returns False),
       nextAriaDisabled = (\<lambda>i. if i < length vs then viewNextAriaDisabled (vs ! i) else Throws),
       clickNext = (\<lambda>i. if i < length vs \<and> viewClickResolves (vs ! i)
                         then (Returns (), Suc i) else (Throws, i)),
       waitForPageLoad = (\<lambda>i. (Returns (), i)) \<rparr>"

definition priced :: "string \<Rightarrow> string \<Rightarrow> card" where
  "priced text url = \<lparr> priceText = Returns (Some text), href = Returns (Some url) \<rparr>"

text \<open>A page whose next-page link is visible, enabled and works; and a last page.\<close>

definition pageWithNext :: "card list \<Rightarrow> view" where
  "pageWithNext cs =
     \<lparr> viewCards = Returns cs, viewNextVisible = Returns True,
       viewNextAriaDisabled = Returns None, viewClickResolves = True \<rparr>"

definition lastPage :: "card list \<Rightarrow> view" where
  "lastPage cs =
     \<lparr> viewCards = Returns cs, viewNextVisible = Returns False,
       viewNextAriaDisabled = Throws, viewClickResolves = False \<rparr>"

text \<open>A page whose next-page link is visible and enabled, but the click on it rejects.\<close>

definition pageWithStuckNext :: "card list \<Rightarrow> view" where
  "pageWithStuckNext cs =
     \<lparr> viewCards = Returns cs, viewNextVisible = Returns True,
       viewNextAriaDisabled = Returns None, viewClickResolves = False \<rparr>"

subsection \<open>Discovery order, as the specification words it\<close>

text \<open>
  A card is accepted when its price text is there, parses to a price \<open>p\<close> with
  \<open>0 < p \<le> maxPrice\<close> (as numbers), and its link is there; its identifier is the link.
\<close>

definition acceptedUrl :: "number \<Rightarrow> card \<Rightarrow> string option" where
  "acceptedUrl maxPrice c =
     (case (priceText c, href c) of
        (Returns (Some text), Returns (Some url)) \<Rightarrow>
          if text \<noteq> [] \<and> url \<noteq> [] \<and> numLess (Finite 0) (parse text) \<and> numLessEq (parse text) maxPrice
          then Some url else None
      | _ \<Rightarrow> None)"

text \<open>The pages read during a run, in the order they were read.\<close>

fun fetchedPages :: "event list \<Rightarrow> card list list" where
  "fetchedPages [] = []"
| "fetchedPages (ExtractItems (Returns cs) # tr) = cs # fetchedPages tr"
| "fetchedPages (_ # tr) = fetchedPages tr"

text \<open>Page order first, then the order of the cards on the page.\<close>

definition discoveryOrder :: "number \<Rightarrow> card list list \<Rightarrow> string list" where
  "discoveryOrder maxPrice pages = concat (map (List.map_filter (acceptedUrl maxPrice)) pages)"

fun isExtract :: "event \<Rightarrow> bool" where
  "isExtract (ExtractItems _) = True"
| "isExtract _ = False"

definition fetches :: "event list \<Rightarrow> nat" where
  "fetches tr = length (filter isExtract tr)"

section \<open>Properties\<close>

subsection \<open>The price parser\<close>

declare bitLength.simps [simp del]

lemmas parseFloat_simps = parseFloat_def isDigit_def digitsValue_def digitValue_def Let_def

lemmas numberValue_simps = numberValue_def floorLog2_def roundHalfEven_def bitLength.simps Let_def

lemmas parse_simps = parse_def parseFloat_simps numberValue_simps

lemma numberValue_nonneg: "numLessEq (Finite 0) (numberValue n d)"
  by (simp add: numberValue_def Let_def)

lemma numberValue_not_NaN: "\<not> isNaN (numberValue n d)"
  by (simp add: numberValue_def Let_def)

lemma numLessEq_zero_not_less: "numLessEq (Finite 0) x \<Longrightarrow> \<not> numLess x (Finite 0)"
  by (cases x) auto

lemma parseFloat_nonneg: "isNaN (parseFloat s) \<or> numLessEq (Finite 0) (parseFloat s)"
  by (simp add: parseFloat_def Let_def numberValue_nonneg)

lemma parseFloat_no_digit:
  assumes "\<forall>c \<in> set s. \<not> isDigit c"
  shows "parseFloat s = NaN"
proof -
  have ip: "takeWhile isDigit s = []"
    using assms by (cases s) auto
  have rest: "dropWhile isDigit s = s"
    using assms by (cases s) auto
  have fp: "takeWhile isDigit r = []" if "s = c # r" for c r
    using assms that by (cases r) auto
  show ?thesis
    by (simp add: parseFloat_def ip rest fp split: list.splits)
qed

lemma numLessEq_Finite_trans:
  "x \<le> y \<Longrightarrow> numLessEq (Finite y) z \<Longrightarrow> numLessEq (Finite x) z"
  by (cases z) auto

lemma digitsValue_zeros:
  "foldl (\<lambda>a c. 10 * a + digitValue c) a (replicate k (CHR ''0'')) = a * 10 ^ k"
  by (induction k arbitrary: a) (simp_all add: digitValue_def)

text \<open>
  The rounding, on decimals beyond the precision and the range of a double: the nearest
  double of \<open>100.00000000000000001\<close> is 100, so a card at that price passes a ceiling of
  100; of the two doubles next to \<open>2\<^sup>5\<^sup>3 + 1\<close> and to \<open>2\<^sup>5\<^sup>3 + 3\<close> the even one is taken; a
  1 followed by 400 zeros is \<^verbatim>\<open>Infinity\<close>; and \<open>10\<^sup>-\<^sup>3\<^sup>2\<^sup>5\<close> is 0.
\<close>

lemma parse_rounds_to_nearest: "parse ''$100.00000000000000001'' = Finite 100"
  by (simp add: parse_simps)

lemma extractItems_at_rounded_ceiling:
  "extractItems (Finite 100) [priced ''$100.00000000000000001'' ''u''] = [''u'']"
  by (simp add: extractItems_def priced_def parse_rounds_to_nearest)

lemma parse_ties_to_even:
  "parse ''9007199254740993'' = Finite 9007199254740992
   \<and> parse ''9007199254740995'' = Finite 9007199254740996"
  by (simp add: parse_simps)

lemma numberValue_overflow: "numberValue (10 ^ 400) 1 = PosInfinity"
  by (simp add: numberValue_simps)

lemma numberValue_underflow: "numberValue 1 (10 ^ 325) = Finite 0"
  by (simp add: numberValue_simps)

lemma digitValue_zero_one: "digitValue (CHR ''0'') = 0" "digitValue (CHR ''1'') = 1"
  by (simp_all add: digitValue_def)

lemma parseFloat_integer:
  assumes "ip \<noteq> []" and "\<forall>c \<in> set ip. isDigit c"
  shows "parseFloat ip = numberValue (digitsValue ip) 1"
proof -
  have tw: "takeWhile isDigit ip = ip" and dw: "dropWhile isDigit ip = []"
    using assms(2) by simp_all
  show ?thesis
    using assms(1) by (simp add: parseFloat_def Let_def tw dw digitsValue_def)
qed

lemma parseFloat_decimal:
  assumes "ip \<noteq> []" and "\<forall>c \<in> set ip. isDigit c" and "\<forall>c \<in> set fp. isDigit c"
  shows "parseFloat (ip @ CHR ''.'' # fp)
    = numberValue (digitsValue ip * 10 ^ length fp + digitsValue fp) (10 ^ length fp)"
proof -
  have dot: "\<not> isDigit (CHR ''.'')"
    by (simp add: isDigit_def)
  have tw: "takeWhile isDigit (ip @ CHR ''.'' # fp) = ip"
    using assms(2) dot by simp
  have dw: "dropWhile isDigit (ip @ CHR ''.'' # fp) = CHR ''.'' # fp"
    using assms(2) dot by simp
  have tf: "takeWhile isDigit fp = fp"
    using assms(3) by simp
  show ?thesis
    using assms(1) by (simp add: parseFloat_def Let_def tw dw tf)
qed

lemma parse_overflow: "parse (CHR ''1'' # replicate 400 (CHR ''0'')) = PosInfinity"
proof -
  let ?s = "CHR ''1'' # replicate 400 (CHR ''0'')"
  have digits: "\<forall>c \<in> set ?s. isDigit c"
    by (simp add: isDigit_def)
  have clean: "filter (\<lambda>c. isDigit c \<or> c = CHR ''.'') ?s = ?s"
    by (rule filter_True) (use digits in blast)
  have val: "digitsValue ?s = 10 ^ 400"
    by (simp add: digitsValue_def digitsValue_zeros digitValue_zero_one)
  have "parseFloat ?s = numberValue (digitsValue ?s) 1"
    using digits by (intro parseFloat_integer) simp_all
  then have pf: "parseFloat ?s = PosInfinity"
    by (simp only: val numberValue_overflow)
  show ?thesis
    by (simp only: parse_def Let_def clean pf) simp
qed

lemma parse_underflow:
  "parse (''0'' @ CHR ''.'' # replicate 324 (CHR ''0'') @ ''1'') = Finite 0"
proof -
  let ?fp = "replicate 324 (CHR ''0'') @ ''1''"
  let ?s = "''0'' @ CHR ''.'' # ?fp"
  have digits: "\<forall>c \<in> set ''0''. isDigit c" "\<forall>c \<in> set ?fp. isDigit c"
    by (simp_all add: isDigit_def)
  have clean: "filter (\<lambda>c. isDigit c \<or> c = CHR ''.'') ?s = ?s"
    by (rule filter_True) (use digits in auto)
  have n: "digitsValue ''0'' * 10 ^ 325 + digitsValue ?fp = 1"
    by (simp add: digitsValue_def digitsValue_zeros digitValue_zero_one)
  have d: "length ?fp = 325"
    by simp
  have "parseFloat ?s
      = numberValue (digitsValue ''0'' * 10 ^ length ?fp + digitsValue ?fp) (10 ^ length ?fp)"
    using digits by (intro parseFloat_decimal) simp_all
  then have pf: "parseFloat ?s = Finite 0"
    by (simp only: n d numberValue_underflow)
  show ?thesis
    by (simp only: parse_def Let_def clean pf) simp
qed

text \<open>
  C9. \<^verbatim>\<open>PriceParser.parse\<close> returns a non-negative number for every input string (a double
  that is at least 0, or \<^verbatim>\<open>Infinity\<close>; never \<^verbatim>\<open>NaN\<close>, never a negative number); it
  returns exactly 0 for the empty string and for every string without a decimal digit.
\<close>

theorem parse_nonneg_and_zero_without_digits:
  "numLessEq (Finite 0) (parse s) \<and> \<not> numLess (parse s) (Finite 0) \<and> parse [] = Finite 0 \<and>
   ((\<forall>c \<in> set s. \<not> isDigit c) \<longrightarrow> parse s = Finite 0)"
proof (intro conjI impI)
  show nonneg: "numLessEq (Finite 0) (parse s)"
    using parseFloat_nonneg [of "filter (\<lambda>c. isDigit c \<or> c = CHR ''.'') s"]
    by (auto simp: parse_def Let_def)
  show "\<not> numLess (parse s) (Finite 0)"
    using nonneg by (rule numLessEq_zero_not_less)
  show "parse [] = Finite 0"
    by (simp add: parse_def)
  assume nd: "\<forall>c \<in> set s. \<not> isDigit c"
  then have "\<forall>c \<in> set (filter (\<lambda>c. isDigit c \<or> c = CHR ''.'') s). \<not> isDigit c"
    by auto
  then have "parseFloat (filter (\<lambda>c. isDigit c \<or> c = CHR ''.'') s) = NaN"
    by (rule parseFloat_no_digit)
  then show "parse s = Finite 0"
    by (simp add: parse_def)
qed

theorem parse_nonneg_and_zero_without_digits_witness:
  "\<not> (\<exists>c \<in> set ''US $--.--''. isDigit c) \<and> parse ''US $--.--'' = Finite 0
   \<and> numLessEq (Finite 0) (parse ''US $--.--'') \<and> \<not> numLess (parse ''US $--.--'') (Finite 0)"
  using parse_nonneg_and_zero_without_digits [of "''US $--.--''"]
  by (simp add: isDigit_def)

subsection \<open>The loops of the collector\<close>

lemma extractLoop_map_filter:
  "extractLoop maxPrice items cs = items @ List.map_filter (acceptedUrl maxPrice) cs"
  by (induction cs arbitrary: items)
     (auto simp: map_filter_simps acceptedUrl_def split: outcome.splits option.splits)

lemma extractItems_map_filter:
  "extractItems maxPrice cs = List.map_filter (acceptedUrl maxPrice) cs"
  by (simp add: extractItems_def extractLoop_map_filter)

lemma pushItems_take:
  "pushItems limit acc items =
     (if limit \<le> int (length acc) then acc else take (nat limit) (acc @ items))"
proof (induction items arbitrary: acc)
  case Nil
  then show ?case by auto
next
  case (Cons x xs)
  show ?case
  proof (cases "limit \<le> int (length acc)")
    case True
    then show ?thesis by simp
  next
    case False
    then have "pushItems limit acc (x # xs) = pushItems limit (acc @ [x]) xs" by simp
    also have "\<dots> = (if limit \<le> int (length (acc @ [x])) then acc @ [x]
                      else take (nat limit) ((acc @ [x]) @ xs))"
      by (rule Cons.IH)
    also have "\<dots> = take (nat limit) (acc @ x # xs)"
      using False by (auto simp: take_Cons')
    finally show ?thesis using False by simp
  qed
qed

lemma fetchedPages_append:
  "fetchedPages (xs @ ys) = fetchedPages xs @ fetchedPages ys"
  by (induction xs rule: fetchedPages.induct) auto

lemma discoveryOrder_snoc:
  "discoveryOrder maxPrice (ps @ [cs]) = discoveryOrder maxPrice ps @ extractItems maxPrice cs"
  by (simp add: discoveryOrder_def extractItems_map_filter)

lemma take_take_append:
  "take n (take n xs @ ys) = take n (xs @ ys)"
  by (cases "n \<le> length xs") (auto simp: min_def)

lemma pushItems_discovery:
  assumes "acc = take (nat limit) xs"
  shows "pushItems limit acc items = take (nat limit) (xs @ items)"
proof (cases "limit \<le> int (length acc)")
  case True
  then have "nat limit \<le> length xs \<and> acc = take (nat limit) xs"
    using assms by (auto simp: min_def split: if_splits)
  then show ?thesis using True by (simp add: pushItems_take)
next
  case False
  then show ?thesis using assms by (simp add: pushItems_take take_take_append)
qed


declare collectLoop.simps [simp del]

lemma collectLoop_exit:
  "\<not> (int (length acc) < limit \<and> cp \<le> maxPages) \<Longrightarrow>
   collectLoop b maxPrice limit maxPages acc cp tr w = (Returns acc, tr, w)"
  by (subst collectLoop.simps) auto

lemma collectLoop_throws:
  "int (length acc) < limit \<Longrightarrow> cp \<le> maxPages \<Longrightarrow> allCards b w = Throws \<Longrightarrow>
   collectLoop b maxPrice limit maxPages acc cp tr w = (Throws, tr @ [ExtractItems Throws], w)"
  by (subst collectLoop.simps) (simp add: extractItemsFromCurrentPage_def)

lemma collectLoop_full:
  "int (length acc) < limit \<Longrightarrow> cp \<le> maxPages \<Longrightarrow> allCards b w = Returns cs \<Longrightarrow>
   limit \<le> int (length (pushItems limit acc (extractItems maxPrice cs))) \<Longrightarrow>
   collectLoop b maxPrice limit maxPages acc cp tr w =
     (Returns (pushItems limit acc (extractItems maxPrice cs)),
      tr @ [ExtractItems (Returns cs)], w)"
  by (subst collectLoop.simps) (simp add: extractItemsFromCurrentPage_def)

lemma collectLoop_no_next:
  "int (length acc) < limit \<Longrightarrow> cp \<le> maxPages \<Longrightarrow> allCards b w = Returns cs \<Longrightarrow>
   \<not> limit \<le> int (length (pushItems limit acc (extractItems maxPrice cs))) \<Longrightarrow>
   \<not> hasNextPage b w \<Longrightarrow>
   collectLoop b maxPrice limit maxPages acc cp tr w =
     (Returns (pushItems limit acc (extractItems maxPrice cs)),
      tr @ [ExtractItems (Returns cs), HasNextPage False], w)"
  by (subst collectLoop.simps) (simp add: extractItemsFromCurrentPage_def)

lemma collectLoop_next:
  "int (length acc) < limit \<Longrightarrow> cp \<le> maxPages \<Longrightarrow> allCards b w = Returns cs \<Longrightarrow>
   \<not> limit \<le> int (length (pushItems limit acc (extractItems maxPrice cs))) \<Longrightarrow>
   hasNextPage b w \<Longrightarrow>
   collectLoop b maxPrice limit maxPages acc cp tr w =
     collectLoop b maxPrice limit maxPages (pushItems limit acc (extractItems maxPrice cs))
       (cp + 1) (tr @ [ExtractItems (Returns cs), HasNextPage True, GoToNextPage])
       (goToNextPage b w)"
  by (subst collectLoop.simps) (simp add: extractItemsFromCurrentPage_def)

lemma collectLoop_discovery:
  assumes "collectLoop b maxPrice limit maxPages acc cp tr w = (Returns r, tr', w')"
    and "acc = take (nat limit) (discoveryOrder maxPrice (fetchedPages tr))"
  shows "r = take (nat limit) (discoveryOrder maxPrice (fetchedPages tr'))"
  using assms
proof (induction b maxPrice limit maxPages acc cp tr w rule: collectLoop.induct)
  case (1 b maxPrice limit maxPages acc cp tr w)
  show ?case
  proof (cases "int (length acc) < limit \<and> cp \<le> maxPages")
    case False
    then show ?thesis using "1.prems" by (auto simp: collectLoop_exit)
  next
    case True
    then have c1: "int (length acc) < limit" and c2: "cp \<le> maxPages" by auto
    obtain cs where cs: "allCards b w = Returns cs"
      using "1.prems"(1) c1 c2 by (cases "allCards b w") (auto simp: collectLoop_throws)
    let ?items = "extractItems maxPrice cs"
    let ?acc = "pushItems limit acc ?items"
    have ex: "extractItemsFromCurrentPage b maxPrice w = Returns ?items"
      by (simp add: extractItemsFromCurrentPage_def cs)
    have inv: "?acc = take (nat limit)
        (discoveryOrder maxPrice (fetchedPages (tr @ ExtractItems (Returns cs) # rest)))"
      if "fetchedPages rest = []" for rest
      using that "1.prems"(2)
      by (simp add: fetchedPages_append discoveryOrder_snoc pushItems_discovery)
    show ?thesis
    proof (cases "limit \<le> int (length ?acc)")
      case full: True
      have "r = ?acc" and "tr' = tr @ [ExtractItems (Returns cs)]"
        using "1.prems"(1) by (simp_all add: collectLoop_full [OF c1 c2 cs full])
      then show ?thesis
        using inv [of "[]"] by simp
    next
      case notfull: False
      show ?thesis
      proof (cases "hasNextPage b w")
        case False
        then have "r = ?acc" and "tr' = tr @ [ExtractItems (Returns cs), HasNextPage False]"
          using "1.prems"(1) by (simp_all add: collectLoop_no_next [OF c1 c2 cs notfull])
        then show ?thesis
          using inv [of "[HasNextPage False]"] by simp
      next
        case hn: True
        have "collectLoop b maxPrice limit maxPages ?acc (cp + 1)
                (tr @ [ExtractItems (allCards b w), HasNextPage True, GoToNextPage])
                (goToNextPage b w) = (Returns r, tr', w')"
          using "1.prems"(1) by (simp add: collectLoop_next [OF c1 c2 cs notfull hn] cs)
        moreover have "?acc = take (nat limit) (discoveryOrder maxPrice (fetchedPages
                (tr @ [ExtractItems (allCards b w), HasNextPage True, GoToNextPage])))"
          using inv [of "[HasNextPage True, GoToNextPage]"] by (simp add: cs)
        ultimately show ?thesis
          using "1.IH" [OF True ex] notfull hn by simp
      qed
    qed
  qed
qed

lemma collectLoop_fetches:
  "fetches (fst (snd (collectLoop b maxPrice limit maxPages acc cp tr w)))
     \<le> fetches tr + nat (maxPages + 1 - cp)"
proof (induction b maxPrice limit maxPages acc cp tr w rule: collectLoop.induct)
  case (1 b maxPrice limit maxPages acc cp tr w)
  show ?case
  proof (cases "int (length acc) < limit \<and> cp \<le> maxPages")
    case False
    then show ?thesis by (simp add: collectLoop_exit)
  next
    case True
    then have c1: "int (length acc) < limit" and c2: "cp \<le> maxPages" by auto
    show ?thesis
    proof (cases "allCards b w")
      case Throws
      then show ?thesis using c2
        by (simp add: collectLoop_throws [OF c1 c2] fetches_def)
    next
      case (Returns cs)
      let ?acc = "pushItems limit acc (extractItems maxPrice cs)"
      have ex: "extractItemsFromCurrentPage b maxPrice w = Returns (extractItems maxPrice cs)"
        by (simp add: extractItemsFromCurrentPage_def Returns)
      show ?thesis
      proof (cases "limit \<le> int (length ?acc)")
        case full: True
        then show ?thesis using c2
          by (simp add: collectLoop_full [OF c1 c2 Returns] fetches_def)
      next
        case notfull: False
        show ?thesis
        proof (cases "hasNextPage b w")
          case False
          then show ?thesis using c2
            by (simp add: collectLoop_no_next [OF c1 c2 Returns notfull] fetches_def)
        next
          case hn: True
          have "fetches (fst (snd (collectLoop b maxPrice limit maxPages ?acc (cp + 1)
                   (tr @ [ExtractItems (allCards b w), HasNextPage True, GoToNextPage])
                   (goToNextPage b w))))
                \<le> fetches (tr @ [ExtractItems (allCards b w), HasNextPage True, GoToNextPage])
                       + nat (maxPages + 1 - (cp + 1))"
            using "1.IH" [OF True ex] notfull hn by simp
          also have "\<dots> \<le> fetches tr + nat (maxPages + 1 - cp)"
            using c2 by (simp add: fetches_def)
          finally show ?thesis
            by (simp add: collectLoop_next [OF c1 c2 Returns notfull hn] Returns)
        qed
      qed
    qed
  qed
qed

subsection \<open>The collector\<close>

lemmas run_simps =
  collectItemsWithPaging_def collectLoop.simps extractItemsFromCurrentPage_def extractItems_def
  hasNextPage_def goToNextPage_def slice0_def site_def priced_def pageWithNext_def lastPage_def
  pageWithStuckNext_def parse_simps

lemma slice0_take: "slice0 (take (nat limit) xs) limit = take (nat limit) xs"
  by (cases "limit < 0") (auto simp: slice0_def Let_def min_def)

lemma collect_discovery:
  assumes "collectItemsWithPaging b maxPrice limit maxPages w = (Returns r, tr, w')"
  shows "r = take (nat limit) (discoveryOrder maxPrice (fetchedPages tr))"
proof -
  obtain r0 where loop: "collectLoop b maxPrice limit maxPages [] 1 [] w = (Returns r0, tr, w')"
    and r: "r = slice0 r0 limit"
    using assms
    by (auto simp: collectItemsWithPaging_def split: prod.splits outcome.splits)
  have "r0 = take (nat limit) (discoveryOrder maxPrice (fetchedPages tr))"
    using loop by (rule collectLoop_discovery) (simp add: discoveryOrder_def)
  then show ?thesis using r by (simp add: slice0_take)
qed

lemma collect_trace:
  "fst (snd (collectItemsWithPaging b maxPrice limit maxPages w))
     = fst (snd (collectLoop b maxPrice limit maxPages [] 1 [] w))"
  by (simp add: collectItemsWithPaging_def split: prod.splits outcome.splits)

lemma set_fetchedPages: "cs \<in> set (fetchedPages tr) \<Longrightarrow> ExtractItems (Returns cs) \<in> set tr"
  by (induction tr rule: fetchedPages.induct) auto

lemma acceptedUrl_SomeD:
  "acceptedUrl maxPrice c = Some u \<Longrightarrow>
   \<exists>text. priceText c = Returns (Some text) \<and> href c = Returns (Some u)
      \<and> numLess (Finite 0) (parse text) \<and> numLessEq (parse text) maxPrice"
  by (auto simp: acceptedUrl_def split: outcome.splits option.splits if_splits)

lemma set_map_filterD:
  "u \<in> set (List.map_filter f xs) \<Longrightarrow> \<exists>x \<in> set xs. f x = Some u"
  by (auto simp: List.map_filter_def)

lemma acceptedUrl_zero:
  "priceText c = Returns (Some text) \<Longrightarrow> parse text = Finite 0 \<Longrightarrow> acceptedUrl maxPrice c = None"
  by (auto simp: acceptedUrl_def split: outcome.splits option.splits)

text \<open>
  C1. For every request (a target count \<open>limit \<ge> 0\<close>) and every page source, the sequence
  the collector returns has at most \<open>limit\<close> elements, however many qualifying cards the
  pages hold.
\<close>

theorem result_length_le_limit:
  assumes "collectItemsWithPaging b maxPrice limit maxPages w = (Returns r, tr, w')"
    and "0 \<le> limit"
  shows "int (length r) \<le> limit"
proof -
  have "r = take (nat limit) (discoveryOrder maxPrice (fetchedPages tr))"
    using assms(1) by (rule collect_discovery)
  then have "length r \<le> nat limit" by simp
  then show ?thesis using assms(2) by linarith
qed

theorem result_length_le_limit_witness:
  "collectItemsWithPaging
      (site [lastPage [priced ''$5.00'' ''p'', priced ''$6.00'' ''q'', priced ''$7.00'' ''r'']])
      (Finite 100) 2 10 0
     = (Returns [''p'', ''q''],
        [ExtractItems (Returns [priced ''$5.00'' ''p'', priced ''$6.00'' ''q'', priced ''$7.00'' ''r''])],
        0)
   \<and> (0::int) \<le> 2 \<and> int (length [''p'', ''q'']) \<le> 2"
proof -
  have run: "collectItemsWithPaging
      (site [lastPage [priced ''$5.00'' ''p'', priced ''$6.00'' ''q'', priced ''$7.00'' ''r'']])
      (Finite 100) 2 10 0
     = (Returns [''p'', ''q''],
        [ExtractItems (Returns [priced ''$5.00'' ''p'', priced ''$6.00'' ''q'', priced ''$7.00'' ''r''])],
        0)"
    by (simp add: run_simps)
  show ?thesis
    using run result_length_le_limit [OF run] by simp
qed

text \<open>
  C2. Every identifier in the result is the link of a card, on a page read during the run,
  whose parsed price \<open>p\<close> satisfies \<open>0 < p \<le> maxPrice\<close>. In particular a card whose price
  parses to exactly 0 is never accepted: taking it off a page changes nothing in what
  \<open>extractItems\<close> returns for that page.
\<close>

theorem accepted_price_within_ceiling:
  "(collectItemsWithPaging b maxPrice limit maxPages w = (Returns r, tr, w') \<longrightarrow>
      (\<forall>u \<in> set r. \<exists>cs c text.
          ExtractItems (Returns cs) \<in> set tr \<and> c \<in> set cs \<and>
          priceText c = Returns (Some text) \<and> href c = Returns (Some u) \<and>
          numLess (Finite 0) (parse text) \<and> numLessEq (parse text) maxPrice))
   \<and> (priceText c0 = Returns (Some text0) \<and> parse text0 = Finite 0 \<longrightarrow>
        extractItems maxPrice (before @ c0 # after) = extractItems maxPrice (before @ after))"
proof (intro conjI impI ballI)
  fix u
  assume run: "collectItemsWithPaging b maxPrice limit maxPages w = (Returns r, tr, w')"
    and u: "u \<in> set r"
  have "r = take (nat limit) (discoveryOrder maxPrice (fetchedPages tr))"
    using run by (rule collect_discovery)
  then have "u \<in> set (discoveryOrder maxPrice (fetchedPages tr))"
    using u by (metis in_set_takeD)
  then obtain cs where cs: "cs \<in> set (fetchedPages tr)"
    and "u \<in> set (List.map_filter (acceptedUrl maxPrice) cs)"
    by (auto simp: discoveryOrder_def)
  then obtain c where c: "c \<in> set cs" and "acceptedUrl maxPrice c = Some u"
    by (blast dest: set_map_filterD)
  then obtain pt where "priceText c = Returns (Some pt)" "href c = Returns (Some u)"
      "numLess (Finite 0) (parse pt)" "numLessEq (parse pt) maxPrice"
    by (blast dest: acceptedUrl_SomeD)
  then show "\<exists>cs c text.
          ExtractItems (Returns cs) \<in> set tr \<and> c \<in> set cs \<and>
          priceText c = Returns (Some text) \<and> href c = Returns (Some u) \<and>
          numLess (Finite 0) (parse text) \<and> numLessEq (parse text) maxPrice"
    using set_fetchedPages [OF cs] c by blast
next
  assume "priceText c0 = Returns (Some text0) \<and> parse text0 = Finite 0"
  then have "acceptedUrl maxPrice c0 = None"
    by (simp add: acceptedUrl_zero)
  then show "extractItems maxPrice (before @ c0 # after) = extractItems maxPrice (before @ after)"
    by (simp add: extractItems_map_filter List.map_filter_def)
qed

text \<open>
  C6. For every request and every page source, the collector reads the cards of at most
  \<open>maxPages\<close> pages (none when the ceiling is below 1); a read that rejects counts too.
\<close>

theorem at_most_maxPages_fetches:
  "int (fetches (fst (snd (collectItemsWithPaging b maxPrice limit maxPages w)))) \<le> max 0 maxPages"
proof -
  have "fetches (fst (snd (collectLoop b maxPrice limit maxPages [] 1 [] w)))
          \<le> fetches [] + nat (maxPages + 1 - 1)"
    by (rule collectLoop_fetches)
  then show ?thesis
    by (simp add: collect_trace fetches_def)
qed

text \<open>
  C7. The result is a prefix of the identifiers in discovery order: the accepted links of
  the page read first, in the order of its cards, then those of the page read next, and so
  on.
\<close>

theorem result_in_discovery_order:
  assumes "collectItemsWithPaging b maxPrice limit maxPages w = (Returns r, tr, w')"
  shows "r = take (nat limit) (discoveryOrder maxPrice (fetchedPages tr))"
  using assms by (rule collect_discovery)

text \<open>
  C10. With \<open>limit \<le> 0\<close> the collector returns the empty sequence; it reads no page, calls
  neither \<open>hasNextPage\<close> nor \<open>goToNextPage\<close> (the log is empty, the browser state
  untouched) and raises no error.
\<close>

theorem nonpositive_limit_returns_empty:
  assumes "limit \<le> 0"
  shows "collectItemsWithPaging b maxPrice limit maxPages w = (Returns [], [], w)"
proof -
  have "collectLoop b maxPrice limit maxPages [] 1 [] w = (Returns [], [], w)"
    using assms by (simp add: collectLoop_exit)
  then show ?thesis
    by (simp add: collectItemsWithPaging_def slice0_def)
qed

text \<open>
  C5, as amended. With \<open>limit \<le> 0\<close> or \<open>maxPages < 1\<close> the collector validates nothing and
  raises no error: it returns the empty sequence at once, before any page is read.
\<close>

theorem invalid_request_returns_empty_without_error:
  assumes "limit \<le> 0 \<or> maxPages < 1"
  shows "collectItemsWithPaging b maxPrice limit maxPages w = (Returns [], [], w)"
proof -
  have "\<not> (int (length ([]::string list)) < limit \<and> 1 \<le> maxPages)"
    using assms by auto
  then have "collectLoop b maxPrice limit maxPages [] 1 [] w = (Returns [], [], w)"
    by (rule collectLoop_exit)
  then show ?thesis
    by (simp add: collectItemsWithPaging_def slice0_def)
qed


lemma collectLoop_target_last:
  assumes "collectLoop b maxPrice limit maxPages acc cp tr w = (Returns r, tr', w')"
    and "int (length acc) < limit" and "limit \<le> int (length r)"
  shows "\<exists>tr0 cs. tr' = tr0 @ [ExtractItems (Returns cs)]"
  using assms
proof (induction b maxPrice limit maxPages acc cp tr w rule: collectLoop.induct)
  case (1 b maxPrice limit maxPages acc cp tr w)
  show ?case
  proof (cases "int (length acc) < limit \<and> cp \<le> maxPages")
    case False
    then have "r = acc"
      using "1.prems"(1) by (simp add: collectLoop_exit)
    then show ?thesis using "1.prems"(2,3) by simp
  next
    case True
    then have c1: "int (length acc) < limit" and c2: "cp \<le> maxPages" by auto
    obtain cs where cs: "allCards b w = Returns cs"
      using "1.prems"(1) c1 c2 by (cases "allCards b w") (auto simp: collectLoop_throws)
    let ?acc = "pushItems limit acc (extractItems maxPrice cs)"
    have ex: "extractItemsFromCurrentPage b maxPrice w = Returns (extractItems maxPrice cs)"
      by (simp add: extractItemsFromCurrentPage_def cs)
    show ?thesis
    proof (cases "limit \<le> int (length ?acc)")
      case full: True
      have "tr' = tr @ [ExtractItems (Returns cs)]"
        using "1.prems"(1) by (simp add: collectLoop_full [OF c1 c2 cs full])
      then show ?thesis by blast
    next
      case notfull: False
      show ?thesis
      proof (cases "hasNextPage b w")
        case False
        then have "r = ?acc"
          using "1.prems"(1) by (simp add: collectLoop_no_next [OF c1 c2 cs notfull])
        then show ?thesis using notfull "1.prems"(3) by simp
      next
        case hn: True
        have "collectLoop b maxPrice limit maxPages ?acc (cp + 1)
                (tr @ [ExtractItems (allCards b w), HasNextPage True, GoToNextPage])
                (goToNextPage b w) = (Returns r, tr', w')"
          using "1.prems"(1) by (simp add: collectLoop_next [OF c1 c2 cs notfull hn] cs)
        moreover have "int (length ?acc) < limit"
          using notfull by simp
        ultimately show ?thesis
          using "1.IH" [OF True ex] notfull hn "1.prems"(3) by simp
      qed
    qed
  qed
qed

text \<open>
  C8. Whenever the accumulator reaches \<open>limit\<close> while a page is processed, the loop returns
  right after that page: the log grows by the page read only, and the browser state is the
  one the page was read in. For a whole run that returns \<open>limit > 0\<close> identifiers, the
  page read is the last call of the log. With \<open>limit = 1\<close> and a first page holding the
  cards priced 5 (link p) and 6 (link q), both under the ceiling, the result is exactly
  \<open>[p]\<close> and no call follows the page read.
\<close>

theorem target_reached_stops_without_advance:
  "(int (length collectedUrls) < limit \<and> currentPage \<le> maxPages \<and> allCards b w = Returns cs \<and>
      limit \<le> int (length (pushItems limit collectedUrls (extractItems maxPrice cs))) \<longrightarrow>
      collectLoop b maxPrice limit maxPages collectedUrls currentPage tr w =
        (Returns (pushItems limit collectedUrls (extractItems maxPrice cs)),
         tr @ [ExtractItems (Returns cs)], w))
   \<and> (collectItemsWithPaging b maxPrice limit maxPages w = (Returns r, tr', w') \<and>
        0 < limit \<and> limit \<le> int (length r) \<longrightarrow>
        (\<exists>tr0 cs'. tr' = tr0 @ [ExtractItems (Returns cs')]))
   \<and> (allCards b w = Returns [priced ''5'' ''p'', priced ''6'' ''q''] \<and>
        numLessEq (Finite 6) maxPrice \<and> 1 \<le> maxPages \<longrightarrow>
        collectItemsWithPaging b maxPrice 1 maxPages w =
          (Returns [''p''], [ExtractItems (Returns [priced ''5'' ''p'', priced ''6'' ''q''])], w))"
proof (intro conjI impI)
  assume "int (length collectedUrls) < limit \<and> currentPage \<le> maxPages \<and>
      allCards b w = Returns cs \<and>
      limit \<le> int (length (pushItems limit collectedUrls (extractItems maxPrice cs)))"
  then show "collectLoop b maxPrice limit maxPages collectedUrls currentPage tr w =
        (Returns (pushItems limit collectedUrls (extractItems maxPrice cs)),
         tr @ [ExtractItems (Returns cs)], w)"
    by (simp add: collectLoop_full)
next
  assume a: "collectItemsWithPaging b maxPrice limit maxPages w = (Returns r, tr', w') \<and>
        0 < limit \<and> limit \<le> int (length r)"
  then obtain r0 where loop: "collectLoop b maxPrice limit maxPages [] 1 [] w = (Returns r0, tr', w')"
    and r: "r = slice0 r0 limit"
    by (auto simp: collectItemsWithPaging_def split: prod.splits outcome.splits)
  have "length r \<le> length r0"
    using r by (simp add: slice0_def Let_def)
  then have "limit \<le> int (length r0)"
    using a by linarith
  with loop show "\<exists>tr0 cs'. tr' = tr0 @ [ExtractItems (Returns cs')]"
    using a by (auto dest: collectLoop_target_last)
next
  let ?cs = "[priced ''5'' ''p'', priced ''6'' ''q'']"
  assume a: "allCards b w = Returns ?cs \<and> numLessEq (Finite 6) maxPrice \<and> 1 \<le> maxPages"
  have five: "numLessEq (Finite 5) maxPrice"
    using a by (intro numLessEq_Finite_trans [of 5 6]) simp_all
  have items: "extractItems maxPrice ?cs = [''p'', ''q'']"
    using a five by (simp add: extractItems_def priced_def parse_simps)
  have "collectLoop b maxPrice 1 maxPages [] 1 [] w
          = (Returns (pushItems 1 [] (extractItems maxPrice ?cs)), [] @ [ExtractItems (Returns ?cs)], w)"
    using a by (intro collectLoop_full) (simp_all add: items)
  then show "collectItemsWithPaging b maxPrice 1 maxPages w =
          (Returns [''p''], [ExtractItems (Returns ?cs)], w)"
    by (simp add: collectItemsWithPaging_def items slice0_def)
qed

theorem target_reached_stops_without_advance_witness:
  "allCards (site [pageWithNext [priced ''5'' ''p'', priced ''6'' ''q'']]) 0
      = Returns [priced ''5'' ''p'', priced ''6'' ''q'']
   \<and> numLessEq (Finite 6) (Finite 100) \<and> (1::int) \<le> 10
   \<and> int (length ([]::string list)) < 1
   \<and> 1 \<le> int (length (pushItems 1 [] (extractItems (Finite 100) [priced ''5'' ''p'', priced ''6'' ''q''])))
   \<and> collectItemsWithPaging (site [pageWithNext [priced ''5'' ''p'', priced ''6'' ''q'']]) (Finite 100) 1 10 0
       = (Returns [''p''], [ExtractItems (Returns [priced ''5'' ''p'', priced ''6'' ''q''])], 0)
   \<and> (0::int) < 1 \<and> 1 \<le> int (length [''p''])
   \<and> (\<exists>tr0 cs'. [ExtractItems (Returns [priced ''5'' ''p'', priced ''6'' ''q''])]
          = tr0 @ [ExtractItems (Returns cs')])
   \<and> collectLoop (site [pageWithNext [priced ''5'' ''p'', priced ''6'' ''q'']]) (Finite 100) 1 10 [] 1 [] 0
       = (Returns [''p''], [ExtractItems (Returns [priced ''5'' ''p'', priced ''6'' ''q''])], 0)"
proof -
  let ?cs = "[priced ''5'' ''p'', priced ''6'' ''q'']"
  let ?b = "site [pageWithNext ?cs]"
  have cards: "allCards ?b 0 = Returns ?cs"
    by (simp add: site_def pageWithNext_def)
  have items: "extractItems (Finite 100) ?cs = [''p'', ''q'']"
    by (simp add: extractItems_def priced_def parse_simps)
  note T = target_reached_stops_without_advance
     [where b = ?b and w = 0 and maxPrice = "Finite 100" and maxPages = 10 and limit = 1
        and collectedUrls = "[]" and currentPage = 1 and cs = ?cs and tr = "[]"
        and r = "[''p'']" and tr' = "[ExtractItems (Returns ?cs)]" and w' = 0]
  have run: "collectItemsWithPaging ?b (Finite 100) 1 10 0 = (Returns [''p''], [ExtractItems (Returns ?cs)], 0)"
    using T cards by simp
  have loop: "collectLoop ?b (Finite 100) 1 10 [] 1 [] 0
       = (Returns [''p''], [ExtractItems (Returns ?cs)], 0)"
    using T cards by (simp add: items)
  have last: "\<exists>tr0 cs'. [ExtractItems (Returns ?cs)] = tr0 @ [ExtractItems (Returns cs')]"
    using T run by simp
  show ?thesis
    using cards run loop last by (simp add: items)
qed

text \<open>
  C3, as amended. When the accumulator is still below \<open>limit\<close> after a page is processed
  and the page counter has reached \<open>maxPages\<close>, the collector reads no further page: it
  calls \<open>hasNextPage\<close> once, calls \<open>goToNextPage\<close> once if a next page is reported, and
  returns what it accumulated. In particular, with \<open>maxPages = 1\<close>, \<open>limit > 0\<close> and a
  first page without qualifying cards, the result is empty and exactly one page is read.
\<close>

theorem page_ceiling_stops_fetching:
  "(int (length collectedUrls) < limit \<and> currentPage = maxPages \<and> allCards b w = Returns cs \<and>
      int (length (pushItems limit collectedUrls (extractItems maxPrice cs))) < limit \<longrightarrow>
      collectLoop b maxPrice limit maxPages collectedUrls currentPage tr w =
        (Returns (pushItems limit collectedUrls (extractItems maxPrice cs)),
         tr @ ExtractItems (Returns cs) #
           (if hasNextPage b w then [HasNextPage True, GoToNextPage] else [HasNextPage False]),
         if hasNextPage b w then goToNextPage b w else w))
   \<and> (0 < limit \<and> allCards b w = Returns cs \<and> extractItems maxPrice cs = [] \<longrightarrow>
        fst (collectItemsWithPaging b maxPrice limit 1 w) = Returns [] \<and>
        fetches (fst (snd (collectItemsWithPaging b maxPrice limit 1 w))) = 1)"
proof -
  have step: "collectLoop b maxPrice limit maxPages acc maxPages tr w =
        (Returns (pushItems limit acc (extractItems maxPrice cs)),
         tr @ ExtractItems (Returns cs) #
           (if hasNextPage b w then [HasNextPage True, GoToNextPage] else [HasNextPage False]),
         if hasNextPage b w then goToNextPage b w else w)"
    if c1: "int (length acc) < limit" and cs: "allCards b w = Returns cs"
      and nf: "int (length (pushItems limit acc (extractItems maxPrice cs))) < limit"
    for acc limit maxPages tr
  proof (cases "hasNextPage b w")
    case False
    then show ?thesis
      using nf by (simp add: collectLoop_no_next [OF c1 _ cs])
  next
    case True
    have "collectLoop b maxPrice limit maxPages acc maxPages tr w =
          collectLoop b maxPrice limit maxPages (pushItems limit acc (extractItems maxPrice cs))
            (maxPages + 1) (tr @ [ExtractItems (Returns cs), HasNextPage True, GoToNextPage])
            (goToNextPage b w)"
      using nf True by (intro collectLoop_next [OF c1 _ cs]) simp_all
    also have "\<dots> = (Returns (pushItems limit acc (extractItems maxPrice cs)),
            tr @ [ExtractItems (Returns cs), HasNextPage True, GoToNextPage], goToNextPage b w)"
      by (rule collectLoop_exit) simp
    finally show ?thesis using True by simp
  qed
  show ?thesis
  proof (intro conjI impI)
    assume "int (length collectedUrls) < limit \<and> currentPage = maxPages \<and>
      allCards b w = Returns cs \<and>
      int (length (pushItems limit collectedUrls (extractItems maxPrice cs))) < limit"
    then show "collectLoop b maxPrice limit maxPages collectedUrls currentPage tr w =
        (Returns (pushItems limit collectedUrls (extractItems maxPrice cs)),
         tr @ ExtractItems (Returns cs) #
           (if hasNextPage b w then [HasNextPage True, GoToNextPage] else [HasNextPage False]),
         if hasNextPage b w then goToNextPage b w else w)"
      using step by simp
  next
    assume a: "0 < limit \<and> allCards b w = Returns cs \<and> extractItems maxPrice cs = []"
    then have "collectLoop b maxPrice limit 1 [] 1 [] w =
        (Returns (pushItems limit [] (extractItems maxPrice cs)),
         [] @ ExtractItems (Returns cs) #
           (if hasNextPage b w then [HasNextPage True, GoToNextPage] else [HasNextPage False]),
         if hasNextPage b w then goToNextPage b w else w)"
      by (intro step) simp_all
    then have run: "collectItemsWithPaging b maxPrice limit 1 w =
        (Returns [],
         ExtractItems (Returns cs) #
           (if hasNextPage b w then [HasNextPage True, GoToNextPage] else [HasNextPage False]),
         if hasNextPage b w then goToNextPage b w else w)"
      using a by (simp add: collectItemsWithPaging_def slice0_def)
    show "fst (collectItemsWithPaging b maxPrice limit 1 w) = Returns []"
      by (simp add: run)
    show "fetches (fst (snd (collectItemsWithPaging b maxPrice limit 1 w))) = 1"
      by (simp add: run fetches_def)
  qed
qed


text \<open>
  C3 as stated fails: at the page ceiling the collector still navigates. With
  \<open>maxPages = 1\<close> and a first page without a qualifying card, the log shows the call of
  \<open>goToNextPage\<close> and the browser ends on the second page, whose cards are never read.
\<close>

theorem page_ceiling_still_advances:
  "collectItemsWithPaging
      (site [pageWithNext [priced ''$500.00'' ''x''], lastPage [priced ''$30.00'' ''y'']])
      (Finite 100) 5 1 0
     = (Returns [],
        [ExtractItems (Returns [priced ''$500.00'' ''x'']), HasNextPage True, GoToNextPage],
        Suc 0)"
  by (simp add: run_simps)

theorem page_ceiling_stops_fetching_witness:
  "int (length ([]::string list)) < 5
   \<and> allCards (site [pageWithNext [priced ''$500.00'' ''x''], lastPage [priced ''$30.00'' ''y'']]) 0
        = Returns [priced ''$500.00'' ''x'']
   \<and> int (length (pushItems 5 [] (extractItems (Finite 100) [priced ''$500.00'' ''x'']))) < 5
   \<and> extractItems (Finite 100) [priced ''$500.00'' ''x''] = []
   \<and> collectLoop (site [pageWithNext [priced ''$500.00'' ''x''], lastPage [priced ''$30.00'' ''y'']])
        (Finite 100) 5 1 [] 1 [] 0
       = (Returns [],
          [ExtractItems (Returns [priced ''$500.00'' ''x'']), HasNextPage True, GoToNextPage],
          Suc 0)
   \<and> fst (collectItemsWithPaging
          (site [pageWithNext [priced ''$500.00'' ''x''], lastPage [priced ''$30.00'' ''y'']])
          (Finite 100) 5 1 0) = Returns []
   \<and> fetches (fst (snd (collectItemsWithPaging
          (site [pageWithNext [priced ''$500.00'' ''x''], lastPage [priced ''$30.00'' ''y'']])
          (Finite 100) 5 1 0))) = 1"
proof -
  let ?cs = "[priced ''$500.00'' ''x'']"
  let ?b = "site [pageWithNext ?cs, lastPage [priced ''$30.00'' ''y'']]"
  have cards: "allCards ?b 0 = Returns ?cs"
    by (simp add: site_def pageWithNext_def)
  have items: "extractItems (Finite 100) ?cs = []"
    by (simp add: extractItems_def priced_def parse_simps)
  have nav: "hasNextPage ?b 0" "goToNextPage ?b 0 = Suc 0"
    by (simp_all add: hasNextPage_def goToNextPage_def site_def pageWithNext_def)
  note T = page_ceiling_stops_fetching
     [where b = ?b and w = 0 and maxPrice = "Finite 100" and maxPages = 1 and limit = 5
        and collectedUrls = "[]" and currentPage = 1 and cs = ?cs and tr = "[]"]
  have loop: "collectLoop ?b (Finite 100) 5 1 [] 1 [] 0
       = (Returns [], [ExtractItems (Returns ?cs), HasNextPage True, GoToNextPage], Suc 0)"
    using T cards nav by (simp add: items)
  have run: "fst (collectItemsWithPaging ?b (Finite 100) 5 1 0) = Returns []
      \<and> fetches (fst (snd (collectItemsWithPaging ?b (Finite 100) 5 1 0))) = 1"
    using T cards by (simp add: items)
  show ?thesis
    using cards loop run by (simp add: items)
qed

text \<open>
  C4. The code departs from the claim when the click on the next-page link rejects:
  \<open>goToNextPage\<close> swallows the rejection, the loop counts a new page, and the page still
  shown is read a second time, so its identifier is collected twice. (A rejection inside
  \<open>hasNextPage\<close> does end the loop: \<open>hasNextPage\<close> answers \<open>False\<close>.)
\<close>

theorem failed_click_reads_same_page_again:
  "collectItemsWithPaging (site [pageWithStuckNext [priced ''$5.00'' ''p'']]) (Finite 100) 2 2 0
     = (Returns [''p'', ''p''],
        [ExtractItems (Returns [priced ''$5.00'' ''p'']), HasNextPage True, GoToNextPage,
         ExtractItems (Returns [priced ''$5.00'' ''p''])],
        0)"
  by (simp add: run_simps)

text \<open>
  C5 as stated fails: with \<open>limit = 0\<close>, and with \<open>maxPages = 0\<close>, the collector returns
  the empty sequence and no error.
\<close>

theorem invalid_request_raises_no_error:
  "collectItemsWithPaging (site [lastPage [priced ''$5.00'' ''p'']]) (Finite 100) 0 10 0 = (Returns [], [], 0)
   \<and> collectItemsWithPaging (site [lastPage [priced ''$5.00'' ''p'']]) (Finite 100) 5 0 0 = (Returns [], [], 0)"
  by (simp add: run_simps)

theorem invalid_request_returns_empty_without_error_witness:
  "((5::int) \<le> 0 \<or> (0::int) < 1)
   \<and> collectItemsWithPaging (site [lastPage [priced ''$5.00'' ''p'']]) (Finite 100) 5 0 0 = (Returns [], [], 0)"
  using invalid_request_returns_empty_without_error
    [of 5 0 "site [lastPage [priced ''$5.00'' ''p'']]" "Finite 100" 0]
  by simp

theorem nonpositive_limit_returns_empty_witness:
  "(0::int) \<le> 0
   \<and> collectItemsWithPaging (site [lastPage [priced ''$5.00'' ''p'']]) (Finite 100) 0 10 0 = (Returns [], [], 0)"
  using nonpositive_limit_returns_empty
    [of 0 "site [lastPage [priced ''$5.00'' ''p'']]" "Finite 100" 10 0]
  by simp

theorem at_most_maxPages_fetches_witness:
  "fetches (fst (snd (collectItemsWithPaging
       (site [pageWithNext [priced ''$20.00'' ''x''], pageWithNext [priced ''$30.00'' ''y''],
              lastPage [priced ''$40.00'' ''z'']]) (Finite 100) 5 2 0))) = 2
   \<and> int (fetches (fst (snd (collectItemsWithPaging
       (site [pageWithNext [priced ''$20.00'' ''x''], pageWithNext [priced ''$30.00'' ''y''],
              lastPage [priced ''$40.00'' ''z'']]) (Finite 100) 5 2 0)))) \<le> max 0 2"
proof -
  have "fetches (fst (snd (collectItemsWithPaging
       (site [pageWithNext [priced ''$20.00'' ''x''], pageWithNext [priced ''$30.00'' ''y''],
              lastPage [priced ''$40.00'' ''z'']]) (Finite 100) 5 2 0))) = 2"
    by (simp add: run_simps fetches_def)
  then show ?thesis
    using at_most_maxPages_fetches
      [of "site [pageWithNext [priced ''$20.00'' ''x''], pageWithNext [priced ''$30.00'' ''y''],
              lastPage [priced ''$40.00'' ''z'']]" "Finite 100" 5 2 0]
    by simp
qed

theorem result_in_discovery_order_witness:
  "collectItemsWithPaging
      (site [pageWithNext [priced ''$20.00'' ''x'', priced ''$300.00'' ''b'', priced ''$25.00'' ''c''],
             lastPage [priced ''$30.00'' ''y'', priced ''$10.00'' ''z'']]) (Finite 100) 3 5 0
     = (Returns [''x'', ''c'', ''y''],
        [ExtractItems (Returns [priced ''$20.00'' ''x'', priced ''$300.00'' ''b'', priced ''$25.00'' ''c'']),
         HasNextPage True, GoToNextPage,
         ExtractItems (Returns [priced ''$30.00'' ''y'', priced ''$10.00'' ''z''])],
        Suc 0)
   \<and> [''x'', ''c'', ''y''] = take (nat 3) (discoveryOrder (Finite 100)
         [[priced ''$20.00'' ''x'', priced ''$300.00'' ''b'', priced ''$25.00'' ''c''],
          [priced ''$30.00'' ''y'', priced ''$10.00'' ''z'']])"
proof -
  have run: "collectItemsWithPaging
      (site [pageWithNext [priced ''$20.00'' ''x'', priced ''$300.00'' ''b'', priced ''$25.00'' ''c''],
             lastPage [priced ''$30.00'' ''y'', priced ''$10.00'' ''z'']]) (Finite 100) 3 5 0
     = (Returns [''x'', ''c'', ''y''],
        [ExtractItems (Returns [priced ''$20.00'' ''x'', priced ''$300.00'' ''b'', priced ''$25.00'' ''c'']),
         HasNextPage True, GoToNextPage,
         ExtractItems (Returns [priced ''$30.00'' ''y'', priced ''$10.00'' ''z''])],
        Suc 0)"
    by (simp add: run_simps)
  show ?thesis
    using run result_in_discovery_order [OF run] by simp
qed

theorem accepted_price_within_ceiling_witness:
  "collectItemsWithPaging
      (site [lastPage [priced ''$50.00'' ''a'', priced ''$300.00'' ''b'', priced ''$0.00'' ''c'']])
      (Finite 100) 5 3 0
     = (Returns [''a''],
        [ExtractItems (Returns [priced ''$50.00'' ''a'', priced ''$300.00'' ''b'', priced ''$0.00'' ''c'']),
         HasNextPage False], 0)
   \<and> (\<exists>cs c text.
          ExtractItems (Returns cs) \<in> set
            [ExtractItems (Returns [priced ''$50.00'' ''a'', priced ''$300.00'' ''b'', priced ''$0.00'' ''c'']),
             HasNextPage False] \<and> c \<in> set cs \<and>
          priceText c = Returns (Some text) \<and> href c = Returns (Some ''a'') \<and>
          numLess (Finite 0) (parse text) \<and> numLessEq (parse text) (Finite 100))
   \<and> priceText (priced ''$0.00'' ''c'') = Returns (Some ''$0.00'') \<and> parse ''$0.00'' = Finite 0
   \<and> extractItems (Finite 100) ([priced ''$50.00'' ''a'', priced ''$300.00'' ''b''] @ priced ''$0.00'' ''c'' # [])
        = extractItems (Finite 100) ([priced ''$50.00'' ''a'', priced ''$300.00'' ''b''] @ [])"
proof -
  let ?cs = "[priced ''$50.00'' ''a'', priced ''$300.00'' ''b'', priced ''$0.00'' ''c'']"
  let ?tr = "[ExtractItems (Returns ?cs), HasNextPage False]"
  have run: "collectItemsWithPaging (site [lastPage ?cs]) (Finite 100) 5 3 0 = (Returns [''a''], ?tr, 0)"
    by (simp add: run_simps)
  have zero: "priceText (priced ''$0.00'' ''c'') = Returns (Some ''$0.00'') \<and> parse ''$0.00'' = Finite 0"
    by (simp add: priced_def parse_simps)
  note T = accepted_price_within_ceiling
     [where b = "site [lastPage ?cs]" and maxPrice = "Finite 100" and limit = 5 and maxPages = 3 and w = 0
        and r = "[''a'']" and tr = ?tr and w' = 0 and ?c0.0 = "priced ''$0.00'' ''c''"
        and ?text0.0 = "''$0.00''" and before = "[priced ''$50.00'' ''a'', priced ''$300.00'' ''b'']"
        and after = "[]"]
  have "\<forall>u \<in> set [''a'']. \<exists>cs c text.
          ExtractItems (Returns cs) \<in> set ?tr \<and> c \<in> set cs \<and>
          priceText c = Returns (Some text) \<and> href c = Returns (Some u) \<and>
          numLess (Finite 0) (parse text) \<and> numLessEq (parse text) (Finite 100)"
    using T run by blast
  then have A: "\<exists>cs c text.
          ExtractItems (Returns cs) \<in> set ?tr \<and> c \<in> set cs \<and>
          priceText c = Returns (Some text) \<and> href c = Returns (Some ''a'') \<and>
          numLess (Finite 0) (parse text) \<and> numLessEq (parse text) (Finite 100)"
    by simp
  have B: "extractItems (Finite 100) ([priced ''$50.00'' ''a'', priced ''$300.00'' ''b''] @ priced ''$0.00'' ''c'' # [])
        = extractItems (Finite 100) ([priced ''$50.00'' ''a'', priced ''$300.00'' ''b''] @ [])"
    using T zero by blast
  show ?thesis
    using run A zero B by blast
qed

end
